theory Spec2Isabelle
  imports Main "HOL-Library.AList"
begin

section \<open>Data model of \<open>src/dijkstra/index.ts\<close>\<close>

text \<open>
  \<open>class Vertex { constructor(readonly name: string) }\<close> and
  \<open>class Edge { constructor(readonly from: Vertex, readonly to: Vertex, readonly distance: number) }\<close>.
  The fields \<open>from\<close> and \<open>to\<close> are spelt \<open>efrom\<close> and \<open>eto\<close>, because \<open>from\<close> is
  a keyword of the proof language.

  A TypeScript \<open>number\<close> is modelled as an integer or \<open>Infinity\<close>. Edge weights are the
  integers among the numbers (on them, up to \<open>2^53\<close>, the arithmetic of the program is exact);
  rounding, \<open>NaN\<close> and infinite weights are outside the model.
\<close>

datatype Vertex = Vertex (name: string)

datatype Edge = Edge (efrom: Vertex) (eto: Vertex) (distance: int)

datatype number = Num int | Infinity

fun number_add :: "number \<Rightarrow> number \<Rightarrow> number" where
  "number_add (Num a) (Num b) = Num (a + b)"
| "number_add _ _ = Infinity"

fun number_lt :: "number \<Rightarrow> number \<Rightarrow> bool" where
  "number_lt (Num a) (Num b) = (a < b)"
| "number_lt (Num a) Infinity = True"
| "number_lt Infinity _ = False"

fun number_le :: "number \<Rightarrow> number \<Rightarrow> bool" where
  "number_le (Num a) (Num b) = (a \<le> b)"
| "number_le _ Infinity = True"
| "number_le Infinity (Num b) = False"

text \<open>
  \<open>a < m.get(k)!\<close>: the non-null assertion is erased by the compiler, and a comparison with
  \<open>undefined\<close> is false.
\<close>

fun lt_lookup :: "number \<Rightarrow> number option \<Rightarrow> bool" where
  "lt_lookup a None = False"
| "lt_lookup a (Some b) = number_lt a b"

text \<open>
  A JavaScript \<open>Set<string>\<close> keeps its members in insertion order; \<open>add\<close> of a member
  changes nothing.
\<close>

definition set_add :: "string \<Rightarrow> string list \<Rightarrow> string list" where
  "set_add x xs = (if x \<in> set xs then xs else xs @ [x])"

subsection \<open>The priority queue\<close>

text \<open>
  Modelled from the spec: the package \<open>priorityqueuejs\<close> is a dependency and not part of the
  sources. The spec asks for a min-priority-queue of (vertex, tentativeDistance) pairs
  whose pop returns the entry with the smallest tentative distance; the comparator
  \<open>([v1, d1], [v2, d2]) => d2 - d1\<close> gives the entry with the smaller distance the higher
  priority. The queue is the list of its entries in insertion order. Which of several entries
  with the same smallest distance is popped depends on the layout of the library's heap; the
  model leaves it to a parameter \<open>c\<close>, an index into the candidates, so that a statement
  for all \<open>c\<close> covers every tie-breaking. \<open>deq\<close> of an empty queue throws in the library:
  \<open>None\<close>. The entries that the algorithm enqueues are finite numbers (lemma \<open>soundD\<close>
  below), so the comparator never subtracts \<open>Infinity\<close> from \<open>Infinity\<close>.
\<close>

type_synonym entry = "Vertex \<times> number"

type_synonym PriorityQueue = "entry list"

definition isEmpty :: "PriorityQueue \<Rightarrow> bool" where
  "isEmpty pq = (pq = [])"

definition enq :: "entry \<Rightarrow> PriorityQueue \<Rightarrow> PriorityQueue" where
  "enq e pq = pq @ [e]"

definition min_positions :: "PriorityQueue \<Rightarrow> nat list" where
  "min_positions pq =
     filter (\<lambda>i. list_all (\<lambda>x. number_le (snd (pq ! i)) (snd x)) pq) [0..<length pq]"

definition deq :: "nat \<Rightarrow> PriorityQueue \<Rightarrow> (entry \<times> PriorityQueue) option" where
  "deq c pq =
     (if pq = [] then None
      else let ps = min_positions pq; i = ps ! (c mod length ps)
           in Some (pq ! i, take i pq @ drop (Suc i) pq))"

subsection \<open>The graph and the state of the algorithm\<close>

text \<open>
  \<open>class Graph\<close>: the constructor's two \<open>readonly\<close> parameters and the three private maps.
  \<open>neighbours\<close> is a \<open>Map<string, Edge[]>\<close>, kept as an association list in insertion order.
  \<open>Run\<close> adds the two local variables of \<open>dijkstraShortPathAlgo\<close>.
\<close>

record Graph =
  startV :: Vertex
  edges :: "Edge list"
  bestDistances :: "string \<rightharpoonup> number"
  prevVertex :: "string \<rightharpoonup> Vertex"
  neighbours :: "(string \<times> Edge list) list"

record Run = Graph +
  q :: PriorityQueue
  visited :: "string list"

datatype error = Error string

definition EmptyGraphError :: error where
  "EmptyGraphError = Error ''Edges should not be empty''"

definition DisconnectedSourceError :: error where
  "DisconnectedSourceError = Error ''Edges should include given start Vertex''"

text \<open>
  The two errors that \<open>Graph.validateInput\<close> throws are plain \<open>Error\<close> objects with a
  message; the spec calls them \<open>EmptyGraphError\<close> and \<open>DisconnectedSourceError\<close>. The result
  of \<open>validateInput\<close> is \<open>None\<close> when nothing is thrown. \<open>isEmpty\<close> of lodash, on an array, is
  the test for length \<open>0\<close>.
\<close>

definition validateInput :: "Vertex \<Rightarrow> Edge list \<Rightarrow> error option" where
  "validateInput sv es =
     (if es = [] then Some EmptyGraphError
      else let fromVNames = map (\<lambda>e. name (efrom e)) es;
               toVNames = map (\<lambda>e. name (eto e)) es
           in if name sv \<notin> set fromVNames \<and> name sv \<notin> set toVNames
              then Some DisconnectedSourceError
              else None)"

text \<open>The body of the constructor's first loop, on the pair (\<open>neighbours\<close>, \<open>allVertices\<close>).\<close>

definition add_edge ::
  "(string \<times> Edge list) list \<times> string list \<Rightarrow> Edge \<Rightarrow> (string \<times> Edge list) list \<times> string list"
where
  "add_edge acc e =
     (let nb = fst acc; allVertices = snd acc; frm = name (efrom e);
          nb' = (case map_of nb frm of
                   Some es \<Rightarrow> AList.update frm (es @ [e]) nb
                 | None \<Rightarrow> AList.update frm [e] nb)
      in (nb', set_add (name (eto e)) (set_add frm allVertices)))"

text \<open>The second loop: every collected name gets the distance \<open>Infinity\<close>.\<close>

definition init_distances :: "string list \<Rightarrow> (string \<rightharpoonup> number)" where
  "init_distances vs = foldl (\<lambda>m vName. m(vName \<mapsto> Infinity)) Map.empty vs"

subsection \<open>Dijkstra's algorithm\<close>

text \<open>The body of the inner \<open>for\<close> loop, for one outgoing edge of the popped vertex.\<close>

definition relax :: "Vertex \<Rightarrow> number \<Rightarrow> Run \<Rightarrow> Edge \<Rightarrow> Run" where
  "relax vertexToCheck bestDistSoFar st neighbour =
     (let distVertex = eto neighbour in
      if name distVertex \<in> set (visited st) then st
      else let altDist = number_add bestDistSoFar (Num (distance neighbour)) in
        if lt_lookup altDist (bestDistances st (name distVertex))
        then st\<lparr>bestDistances := (bestDistances st)(name distVertex \<mapsto> altDist),
                prevVertex := (prevVertex st)(name distVertex \<mapsto> vertexToCheck),
                q := enq (distVertex, altDist) (q st)\<rparr>
        else st)"

text \<open>
  One pass through the body of the \<open>while\<close> loop. A vertex without an adjacency entry is
  skipped by \<open>continue\<close>, before \<open>visited.add\<close>.
\<close>

definition iteration :: "nat \<Rightarrow> Run \<Rightarrow> Run" where
  "iteration c st =
     (case deq c (q st) of
        None \<Rightarrow> st
      | Some ((vertexToCheck, bestDistSoFar), rest) \<Rightarrow>
          (case map_of (neighbours st) (name vertexToCheck) of
             None \<Rightarrow> st\<lparr>q := rest\<rparr>
           | Some es \<Rightarrow>
               (let st' = foldl (relax vertexToCheck bestDistSoFar) (st\<lparr>q := rest\<rparr>) es
                in st'\<lparr>visited := set_add (name vertexToCheck) (visited st')\<rparr>)))"

text \<open>
  The tie-breaking choices of the successive pops are a list \<open>cs\<close>, read from the front;
  past its end the choice is \<open>0\<close>. A run is finite, so the lists cover every behaviour of
  the queue.
\<close>

definition choice :: "nat list \<Rightarrow> nat" where
  "choice cs = (case cs of [] \<Rightarrow> 0 | c # _ \<Rightarrow> c)"

text \<open>
  The \<open>while\<close> loop. Every pass shrinks one of three counts, in lexicographic order: the
  vertices with an adjacency entry that are not yet visited, the queue entries of visited
  vertices, and the length of the queue. This holds for every state, whatever the weights.
\<close>

lemma number_le_refl: "number_le a a"
  by (cases a) auto

lemma number_le_total: "number_le a b \<or> number_le b a"
  by (cases a; cases b) auto

lemma number_le_trans: "number_le a b \<Longrightarrow> number_le b c \<Longrightarrow> number_le a c"
  by (cases a; cases b; cases c) auto

lemma least_entry: "pq \<noteq> [] \<Longrightarrow> \<exists>x\<in>set pq. \<forall>y\<in>set pq. number_le (snd x) (snd y)"
proof (induction pq)
  case Nil
  then show ?case by simp
next
  case (Cons a pq)
  show ?case
  proof (cases "pq = []")
    case True
    then show ?thesis by (simp add: number_le_refl)
  next
    case False
    with Cons.IH obtain x where x: "x \<in> set pq" "\<forall>y\<in>set pq. number_le (snd x) (snd y)"
      by blast
    show ?thesis
    proof (cases "number_le (snd a) (snd x)")
      case True
      with x have "\<forall>y\<in>set (a # pq). number_le (snd a) (snd y)"
        by (auto simp: number_le_refl intro: number_le_trans)
      then show ?thesis by auto
    next
      case False
      then have "number_le (snd x) (snd a)" using number_le_total by blast
      with x have "\<forall>y\<in>set (a # pq). number_le (snd x) (snd y)" by auto
      with x(1) show ?thesis by auto
    qed
  qed
qed

lemma min_positions_nonempty: "pq \<noteq> [] \<Longrightarrow> min_positions pq \<noteq> []"
proof -
  assume "pq \<noteq> []"
  then obtain x where x: "x \<in> set pq" "\<forall>y\<in>set pq. number_le (snd x) (snd y)"
    using least_entry by blast
  then obtain i where i: "i < length pq" "pq ! i = x" by (auto simp: in_set_conv_nth)
  then have "i \<in> set (min_positions pq)"
    using x by (auto simp: min_positions_def list_all_iff)
  then show ?thesis by auto
qed

lemma deq_Some:
  assumes "pq \<noteq> []"
  shows "\<exists>i<length pq. deq c pq = Some (pq ! i, take i pq @ drop (Suc i) pq)
            \<and> (\<forall>y\<in>set pq. number_le (snd (pq ! i)) (snd y))"
proof -
  let ?ps = "min_positions pq"
  let ?i = "?ps ! (c mod length ?ps)"
  have ne: "?ps \<noteq> []" using assms by (rule min_positions_nonempty)
  then have "c mod length ?ps < length ?ps" by simp
  then have "?i \<in> set ?ps" by (rule nth_mem)
  then have "?i < length pq" "\<forall>y\<in>set pq. number_le (snd (pq ! ?i)) (snd y)"
    by (auto simp: min_positions_def list_all_iff)
  moreover have "deq c pq = Some (pq ! ?i, take ?i pq @ drop (Suc ?i) pq)"
    using assms by (simp add: deq_def Let_def)
  ultimately show ?thesis by blast
qed

lemma relax_visited [simp]: "visited (relax v d st e) = visited st"
  by (simp add: relax_def Let_def)

lemma relax_neighbours [simp]: "neighbours (relax v d st e) = neighbours st"
  by (simp add: relax_def Let_def)

lemma relax_startV [simp]: "startV (relax v d st e) = startV st"
  by (simp add: relax_def Let_def)

lemma relax_edges [simp]: "edges (relax v d st e) = edges st"
  by (simp add: relax_def Let_def)

lemma foldl_relax_visited [simp]: "visited (foldl (relax v d) st es) = visited st"
  by (induction es arbitrary: st) simp_all

lemma foldl_relax_neighbours [simp]: "neighbours (foldl (relax v d) st es) = neighbours st"
  by (induction es arbitrary: st) simp_all

lemma foldl_relax_startV [simp]: "startV (foldl (relax v d) st es) = startV st"
  by (induction es arbitrary: st) simp_all

lemma foldl_relax_edges [simp]: "edges (foldl (relax v d) st es) = edges st"
  by (induction es arbitrary: st) simp_all

definition stale_count :: "Run \<Rightarrow> nat" where
  "stale_count st = length (filter (\<lambda>e. name (fst e) \<in> set (visited st)) (q st))"

definition open_count :: "Run \<Rightarrow> nat" where
  "open_count st = card (fst ` set (neighbours st) - set (visited st))"

lemma relax_stale_count [simp]: "stale_count (relax v d st e) = stale_count st"
  by (simp add: relax_def Let_def stale_count_def enq_def)

lemma foldl_relax_stale_count [simp]: "stale_count (foldl (relax v d) st es) = stale_count st"
  by (induction es arbitrary: st) simp_all

lemma filter_remove_nth_le:
  "length (filter P (take i xs @ drop (Suc i) xs)) \<le> length (filter P xs)"
proof -
  have a: "length (filter P xs) = length (filter P (take i xs)) + length (filter P (drop i xs))"
    by (metis append_take_drop_id filter_append length_append)
  have "length (filter P (drop (Suc i) xs)) \<le> length (filter P (drop i xs))"
  proof (cases "i < length xs")
    case True
    then have "drop i xs = xs ! i # drop (Suc i) xs" by (simp add: Cons_nth_drop_Suc)
    then show ?thesis by simp
  next
    case False
    then show ?thesis by simp
  qed
  with a show ?thesis by simp
qed

lemma filter_remove_nth_less:
  assumes "i < length xs" "P (xs ! i)"
  shows "length (filter P (take i xs @ drop (Suc i) xs)) < length (filter P xs)"
proof -
  have a: "length (filter P xs) = length (filter P (take i xs)) + length (filter P (drop i xs))"
    by (metis append_take_drop_id filter_append length_append)
  have "drop i xs = xs ! i # drop (Suc i) xs" using assms(1) by (simp add: Cons_nth_drop_Suc)
  then have "length (filter P (drop (Suc i) xs)) < length (filter P (drop i xs))"
    using assms(2) by simp
  with a show ?thesis by simp
qed

lemma iteration_decreases:
  assumes "\<not> isEmpty (q st)"
  shows "(iteration c st, st) \<in> measures [open_count, stale_count, \<lambda>s. length (q s)]"
proof -
  from assms have ne: "q st \<noteq> []" by (simp add: isEmpty_def)
  then obtain i where i: "i < length (q st)"
      and d: "deq c (q st) = Some (q st ! i, take i (q st) @ drop (Suc i) (q st))"
    using deq_Some by blast
  obtain v bd where vb: "q st ! i = (v, bd)" by (cases "q st ! i")
  let ?rest = "take i (q st) @ drop (Suc i) (q st)"
  let ?st1 = "st\<lparr>q := ?rest\<rparr>"
  have len: "length ?rest < length (q st)" using i by simp
  have st1_stale: "stale_count ?st1 \<le> stale_count st"
    unfolding stale_count_def by (simp add: filter_remove_nth_le del: filter_append)
  show ?thesis
  proof (cases "map_of (neighbours st) (name v)")
    case None
    then have eq: "iteration c st = ?st1" by (simp add: iteration_def d vb)
    have "open_count ?st1 = open_count st" by (simp add: open_count_def)
    with st1_stale len show ?thesis unfolding eq by auto
  next
    case (Some es)
    let ?st2 = "foldl (relax v bd) ?st1 es"
    have eq: "iteration c st = ?st2\<lparr>visited := set_add (name v) (visited st)\<rparr>"
      using Some by (simp add: iteration_def d vb Let_def)
    have inn: "name v \<in> fst ` set (neighbours st)"
      using map_of_SomeD[OF Some] by force
    show ?thesis
    proof (cases "name v \<in> set (visited st)")
      case True
      then have eq': "iteration c st = ?st2\<lparr>visited := visited st\<rparr>"
        using eq by (simp add: set_add_def)
      have o: "open_count (iteration c st) = open_count st"
        unfolding eq' by (simp add: open_count_def)
      have "stale_count (iteration c st) = stale_count ?st2"
        unfolding eq' by (simp add: stale_count_def)
      also have "\<dots> = stale_count ?st1" by simp
      also have "\<dots> < stale_count st"
        unfolding stale_count_def using i vb True
        by (simp add: filter_remove_nth_less del: filter_append)
      finally show ?thesis using o by auto
    next
      case False
      have "fst ` set (neighbours st) - set (set_add (name v) (visited st))
            \<subset> fst ` set (neighbours st) - set (visited st)"
        using inn False by (auto simp: set_add_def)
      then have "open_count (iteration c st) < open_count st"
        unfolding eq open_count_def by (simp add: psubset_card_mono)
      then show ?thesis by auto
    qed
  qed
qed

function dijkstra_while :: "nat list \<Rightarrow> Run \<Rightarrow> Run" where
  "dijkstra_while cs st =
     (if isEmpty (q st) then st else dijkstra_while (tl cs) (iteration (choice cs) st))"
  by pat_completeness auto

termination dijkstra_while
proof (relation "inv_image (measures [open_count, stale_count, \<lambda>s. length (q s)]) snd")
  show "wf (inv_image (measures [open_count, stale_count, \<lambda>s. length (q s)]) snd)"
    by simp
next
  fix cs :: "nat list" and st :: Run
  assume "\<not> isEmpty (q st)"
  then have "(iteration (choice cs) st, st) \<in> measures [open_count, stale_count, \<lambda>s. length (q s)]"
    by (rule iteration_decreases)
  then show "((tl cs, iteration (choice cs) st), cs, st)
      \<in> inv_image (measures [open_count, stale_count, \<lambda>s. length (q s)]) snd"
    by (simp only: in_inv_image snd_conv)
qed

declare dijkstra_while.simps [simp del]

subsection \<open>Construction and queries\<close>

text \<open>
  \<open>dijkstraShortPathAlgo\<close> starts the loop with the queue holding \<open>[startV, 0]\<close> and no
  visited vertex (\<open>initial_run\<close>), and leaves the three maps of the graph behind. The
  constructor validates, builds \<open>neighbours\<close> and \<open>allVertices\<close> and initialises the distances
  (\<open>Graph_init\<close>), and runs the algorithm; a thrown error is \<open>Inl\<close>.
\<close>

definition initial_run :: "Graph \<Rightarrow> Run" where
  "initial_run this =
     \<lparr>startV = startV this, edges = edges this, bestDistances = bestDistances this,
      prevVertex = prevVertex this, neighbours = neighbours this,
      q = enq (startV this, Num 0) [], visited = []\<rparr>"

definition dijkstraShortPathAlgo :: "nat list \<Rightarrow> Graph \<Rightarrow> Graph" where
  "dijkstraShortPathAlgo cs this = Graph.truncate (dijkstra_while cs (initial_run this))"

definition Graph_init :: "Vertex \<Rightarrow> Edge list \<Rightarrow> Graph" where
  "Graph_init sv es =
     (let built = foldl add_edge ([], []) es;
          best = (init_distances (snd built))(name sv \<mapsto> Num 0)
      in \<lparr>startV = sv, edges = es, bestDistances = best,
          prevVertex = Map.empty, neighbours = fst built\<rparr>)"

definition Graph_new :: "nat list \<Rightarrow> Vertex \<Rightarrow> Edge list \<Rightarrow> error + Graph" where
  "Graph_new cs sv es =
     (case validateInput sv es of
        Some err \<Rightarrow> Inl err
      | None \<Rightarrow> Inr (dijkstraShortPathAlgo cs (Graph_init sv es)))"

text \<open>
  The loop cut off after \<open>n\<close> passes: \<open>passes n cs st\<close> is the state at the head of the
  loop after \<open>n\<close> passes from \<open>st\<close>, or the final state when the queue empties earlier.
\<close>

fun passes :: "nat \<Rightarrow> nat list \<Rightarrow> Run \<Rightarrow> Run" where
  "passes 0 cs st = st"
| "passes (Suc n) cs st =
     (if isEmpty (q st) then st else passes n (tl cs) (iteration (choice cs) st))"

text \<open>
  The queries. \<open>shortestPathTo\<close> is the lookup in \<open>bestDistances\<close>; \<open>None\<close> is the
  \<open>undefined\<close> of a name that was never registered.

  \<open>printPathTo\<close> returns a string or \<open>undefined\<close> (the inner option); its \<open>while\<close> loop
  follows \<open>prevVertex\<close> until a name has no entry, and the outer \<open>None\<close> stands for a walk
  that never ends. \<open>toString\<close> is the conversion of the template literal (integers below
  \<open>10^21\<close> print in decimal). \<open>pathTo\<close> is the same function with the sequence of the
  vertices that \<open>printPathTo\<close> prints in place of the string: the path of the spec.
\<close>

definition shortestPathTo :: "Graph \<Rightarrow> Vertex \<Rightarrow> number option" where
  "shortestPathTo g v = bestDistances g (name v)"

fun digits :: "nat \<Rightarrow> string" where
  "digits n = (if n < 10 then [''0123456789'' ! n]
               else digits (n div 10) @ [''0123456789'' ! (n mod 10)])"

declare digits.simps [simp del]

fun toString :: "number option \<Rightarrow> string" where
  "toString None = ''undefined''"
| "toString (Some Infinity) = ''Infinity''"
| "toString (Some (Num i)) = (if i < 0 then CHR ''-'' # digits (nat (- i)) else digits (nat i))"

partial_function (option) printPathLoop ::
  "(string \<rightharpoonup> Vertex) \<Rightarrow> Vertex option \<Rightarrow> string \<Rightarrow> string option"
where
  "printPathLoop pm pv path =
     (case pv of
        None \<Rightarrow> Some path
      | Some p \<Rightarrow> printPathLoop pm (pm (name p)) (''Vertex('' @ name p @ '') -> '' @ path))"

declare printPathLoop.simps [code]

definition printPathTo :: "Graph \<Rightarrow> Vertex \<Rightarrow> string option option" where
  "printPathTo g v =
     (if name v = name (startV g) then Some (Some (''Vertex('' @ name v @ '') is a source''))
      else case prevVertex g (name v) of
             None \<Rightarrow> Some None
           | Some p \<Rightarrow>
               map_option Some
                 (printPathLoop (prevVertex g) (Some p)
                    (''Vertex('' @ name v @ '') - total '' @ toString (bestDistances g (name v))
                       @ '' away from source'')))"

partial_function (option) pathLoop ::
  "(string \<rightharpoonup> Vertex) \<Rightarrow> Vertex option \<Rightarrow> Vertex list \<Rightarrow> Vertex list option"
where
  "pathLoop pm pv path =
     (case pv of
        None \<Rightarrow> Some path
      | Some p \<Rightarrow> pathLoop pm (pm (name p)) (p # path))"

declare pathLoop.simps [code]

definition pathTo :: "Graph \<Rightarrow> Vertex \<Rightarrow> Vertex list option option" where
  "pathTo g v =
     (if name v = name (startV g) then Some (Some [v])
      else case prevVertex g (name v) of
             None \<Rightarrow> Some None
           | Some p \<Rightarrow> map_option Some (pathLoop (prevVertex g) (Some p) [v]))"

text \<open>The sample graph at the end of the source file (\<open>edges\<close> there).\<close>

definition vA :: Vertex where "vA = Vertex ''A''"
definition vB :: Vertex where "vB = Vertex ''B''"
definition vC :: Vertex where "vC = Vertex ''C''"
definition vD :: Vertex where "vD = Vertex ''D''"
definition vE :: Vertex where "vE = Vertex ''E''"

definition demo_edges :: "Edge list" where
  "demo_edges = [Edge vA vB 1, Edge vA vC 3, Edge vA vE 10, Edge vB vC 1, Edge vC vD 5, Edge vD vE 4]"

section \<open>Validation of the input\<close>

text \<open>The names that occur as an endpoint of some edge.\<close>

definition vertex_names :: "Edge list \<Rightarrow> string set" where
  "vertex_names es = set (map (\<lambda>e. name (efrom e)) es) \<union> set (map (\<lambda>e. name (eto e)) es)"

lemma validateInput_cases:
  "validateInput sv es =
     (if es = [] then Some EmptyGraphError
      else if name sv \<in> vertex_names es then None else Some DisconnectedSourceError)"
  by (auto simp: validateInput_def vertex_names_def Let_def)

lemma errors_distinct: "EmptyGraphError \<noteq> DisconnectedSourceError"
  by (simp add: EmptyGraphError_def DisconnectedSourceError_def)

lemma Graph_new_cases:
  "Graph_new cs sv es =
     (if es = [] then Inl EmptyGraphError
      else if name sv \<in> vertex_names es
      then Inr (dijkstraShortPathAlgo cs (Graph_init sv es))
      else Inl DisconnectedSourceError)"
  by (simp add: Graph_new_def validateInput_cases)

text \<open>
  Claim C6: construction with an empty edge list fails with the error "Edges should not be
  empty" (the spec's \<open>EmptyGraphError\<close>), and no graph object is produced.
\<close>

theorem empty_edges_rejected:
  "Graph_new cs sv [] = Inl EmptyGraphError \<and> (\<forall>g. Graph_new cs sv [] \<noteq> Inr g)"
  by (simp add: Graph_new_cases)

theorem empty_edges_rejected_witness:
  "Graph_new [] vA [] = Inl EmptyGraphError \<and> \<not> (\<exists>g. Graph_new [] vA [] = Inr g)"
  using empty_edges_rejected [of "[]" vA] by simp

text \<open>
  Claim C7, as amended: for a non-empty edge list, construction fails with the error "Edges
  should include given start Vertex" (the spec's \<open>DisconnectedSourceError\<close>) exactly when
  the name of the source is neither the \<open>from\<close> nor the \<open>to\<close> endpoint of any edge; when
  the source occurs in some edge, also only as a \<open>to\<close> endpoint, construction succeeds.
\<close>

theorem disconnected_source_nonempty:
  assumes "es \<noteq> []"
  shows "(Graph_new cs sv es = Inl DisconnectedSourceError \<longleftrightarrow> name sv \<notin> vertex_names es)
       \<and> (name sv \<in> vertex_names es \<longrightarrow> (\<exists>g. Graph_new cs sv es = Inr g))"
  using assms by (simp add: Graph_new_cases)

theorem disconnected_source_nonempty_witness:
  "[Edge vB vA 1] \<noteq> [] \<and> name vA \<in> vertex_names [Edge vB vA 1]
   \<and> (\<exists>g. Graph_new [] vA [Edge vB vA 1] = Inr g)
   \<and> Graph_new [] vA [Edge vB vA 1] \<noteq> Inl DisconnectedSourceError
   \<and> name vC \<notin> vertex_names [Edge vB vA 1]
   \<and> Graph_new [] vC [Edge vB vA 1] = Inl DisconnectedSourceError"
proof -
  have ne: "[Edge vB vA 1] \<noteq> []" by simp
  have a: "name vA \<in> vertex_names [Edge vB vA 1]" by (simp add: vertex_names_def)
  have c: "name vC \<notin> vertex_names [Edge vB vA 1]"
    by (simp add: vertex_names_def vA_def vB_def vC_def)
  from disconnected_source_nonempty [OF ne, of "[]" vA] a
  have "(\<exists>g. Graph_new [] vA [Edge vB vA 1] = Inr g)
      \<and> Graph_new [] vA [Edge vB vA 1] \<noteq> Inl DisconnectedSourceError" by simp
  moreover from disconnected_source_nonempty [OF ne, of "[]" vC] c
  have "Graph_new [] vC [Edge vB vA 1] = Inl DisconnectedSourceError" by simp
  ultimately show ?thesis using a c by simp
qed

text \<open>
  The claim as written fails for the empty edge list: the source is in no edge of it, and
  the emptiness check comes first, with the other error.
\<close>

theorem disconnected_source_counterexample:
  "name vA \<notin> vertex_names [] \<and> Graph_new [] vA [] \<noteq> Inl DisconnectedSourceError"
  by (simp add: Graph_new_cases vertex_names_def errors_distinct)

text \<open>
  Claim C3, as amended: the weights are not inspected. When some edge has a negative weight,
  construction succeeds and the algorithm runs if the source occurs in some edge; otherwise
  it fails with the error for a source that is in no edge. No error of the program is about
  weights.
\<close>

theorem negative_weight_not_checked:
  assumes "\<exists>e\<in>set es. distance e < 0"
  shows "if name sv \<in> vertex_names es
         then \<exists>g. Graph_new cs sv es = Inr g
         else Graph_new cs sv es = Inl DisconnectedSourceError"
proof -
  from assms have "es \<noteq> []" by auto
  then show ?thesis by (simp add: Graph_new_cases)
qed

theorem negative_weight_not_checked_witness:
  "distance (Edge vA vB (- 1)) < 0 \<and> (\<exists>g. Graph_new [] vA [Edge vA vB (- 1)] = Inr g)"
proof -
  have h: "\<exists>e\<in>set [Edge vA vB (- 1)]. distance e < 0" by simp
  have a: "name vA \<in> vertex_names [Edge vA vB (- 1)]" by (simp add: vertex_names_def)
  from negative_weight_not_checked [OF h, of vA "[]"] a show ?thesis by simp
qed

text \<open>
  The edge \<open>A \<rightarrow> B\<close> of weight \<open>-1\<close> is accepted, and the distance of \<open>B\<close> is \<open>-1\<close>.
\<close>

theorem negative_weight_counterexample:
  "\<not> isl (Graph_new [] vA [Edge vA vB (- 1)])
   \<and> shortestPathTo (projr (Graph_new [] vA [Edge vA vB (- 1)])) vB = Some (Num (- 1))"
  by code_simp

section \<open>The reference scenario\<close>

text \<open>
  On the sample graph of the source file no pop meets a tie, so the result is the same for
  every tie-breaking: \<open>no_ties n st\<close> says that the run from \<open>st\<close> ends within \<open>n\<close> passes
  and that each pop on the way has one candidate.
\<close>

fun no_ties :: "nat \<Rightarrow> Run \<Rightarrow> bool" where
  "no_ties 0 st = isEmpty (q st)"
| "no_ties (Suc n) st =
     (isEmpty (q st) \<or> (length (min_positions (q st)) = 1 \<and> no_ties n (iteration 0 st)))"

lemma deq_single: "length (min_positions pq) = 1 \<Longrightarrow> deq c pq = deq 0 pq"
  by (simp add: deq_def Let_def)

lemma iteration_single:
  "length (min_positions (q st)) = 1 \<Longrightarrow> iteration c st = iteration 0 st"
  by (simp add: iteration_def deq_single [of "q st" c])

lemma no_ties_run: "no_ties n st \<Longrightarrow> dijkstra_while cs st = dijkstra_while [] st"
proof (induction n arbitrary: st cs)
  case 0
  then show ?case by (simp add: dijkstra_while.simps)
next
  case (Suc n)
  show ?case
  proof (cases "isEmpty (q st)")
    case True
    then show ?thesis by (simp add: dijkstra_while.simps)
  next
    case False
    with Suc.prems have one: "length (min_positions (q st)) = 1"
      and rest: "no_ties n (iteration 0 st)" by auto
    have "dijkstra_while cs st = dijkstra_while (tl cs) (iteration (choice cs) st)"
      using False by (simp add: dijkstra_while.simps [of cs])
    also have "\<dots> = dijkstra_while (tl cs) (iteration 0 st)"
      using iteration_single [OF one, of "choice cs"] by simp
    also have "\<dots> = dijkstra_while [] (iteration 0 st)"
      using rest by (rule Suc.IH)
    also have "\<dots> = dijkstra_while [] st"
      using False by (simp add: choice_def dijkstra_while.simps [of "[]" st])
    finally show ?thesis .
  qed
qed

lemma demo_no_ties: "no_ties 6 (initial_run (Graph_init vA demo_edges))"
  by code_simp

lemma demo_any_choice: "Graph_new cs vA demo_edges = Graph_new [] vA demo_edges"
proof -
  have "dijkstra_while cs (initial_run (Graph_init vA demo_edges))
      = dijkstra_while [] (initial_run (Graph_init vA demo_edges))"
    using demo_no_ties by (rule no_ties_run)
  then have "dijkstraShortPathAlgo cs (Graph_init vA demo_edges)
      = dijkstraShortPathAlgo [] (Graph_init vA demo_edges)"
    by (simp add: dijkstraShortPathAlgo_def)
  then show ?thesis
    by (simp add: Graph_new_def split: option.split)
qed

lemma demo_eval:
  "\<not> isl (Graph_new [] vA demo_edges)
   \<and> shortestPathTo (projr (Graph_new [] vA demo_edges)) vA = Some (Num 0)
   \<and> shortestPathTo (projr (Graph_new [] vA demo_edges)) vB = Some (Num 1)
   \<and> shortestPathTo (projr (Graph_new [] vA demo_edges)) vC = Some (Num 2)
   \<and> shortestPathTo (projr (Graph_new [] vA demo_edges)) vD = Some (Num 7)
   \<and> shortestPathTo (projr (Graph_new [] vA demo_edges)) vE = Some (Num 10)
   \<and> pathTo (projr (Graph_new [] vA demo_edges)) vC = Some (Some [vA, vB, vC])
   \<and> printPathTo (projr (Graph_new [] vA demo_edges)) vC
       = Some (Some ''Vertex(A) -> Vertex(B) -> Vertex(C) - total 2 away from source'')"
  by code_simp

text \<open>
  Claim C8: on the reference input (vertices A to E, edges A-B 1, A-C 3, A-E 10, B-C 1,
  C-D 5, D-E 4, source A) the distances of A, B, C, D, E are 0, 1, 2, 7, 10 and the path to C
  is A, B, C, whatever the tie-breaking of the queue.
\<close>

theorem reference_scenario:
  "\<exists>g. Graph_new cs vA demo_edges = Inr g
     \<and> shortestPathTo g vA = Some (Num 0)
     \<and> shortestPathTo g vB = Some (Num 1)
     \<and> shortestPathTo g vC = Some (Num 2)
     \<and> shortestPathTo g vD = Some (Num 7)
     \<and> shortestPathTo g vE = Some (Num 10)
     \<and> pathTo g vC = Some (Some [vA, vB, vC])
     \<and> printPathTo g vC
         = Some (Some ''Vertex(A) -> Vertex(B) -> Vertex(C) - total 2 away from source'')"
proof -
  from demo_eval obtain g where g: "Graph_new [] vA demo_edges = Inr g"
    by (cases "Graph_new [] vA demo_edges") auto
  with demo_eval demo_any_choice [of cs] show ?thesis by simp
qed

theorem reference_scenario_witness:
  "\<exists>g. Graph_new [2, 1] vA demo_edges = Inr g
     \<and> shortestPathTo g vE = Some (Num 10)
     \<and> pathTo g vC = Some (Some [vA, vB, vC])"
  using reference_scenario [of "[2, 1]"] by blast

section \<open>Paths and their weights\<close>

text \<open>
  The notions of the claims. A path is a list of edges of the input, each starting where the
  previous one ends; \<open>is_path E a p b\<close> says that \<open>p\<close> leads from the name \<open>a\<close> to the name
  \<open>b\<close> (the empty path from a name to itself). Its weight is the sum of the distances.
  \<open>nonneg\<close> says that no edge has a negative weight, \<open>out_edges E u\<close> are the edges that
  start at \<open>u\<close>, in input order.
\<close>

fun is_path :: "Edge list \<Rightarrow> string \<Rightarrow> Edge list \<Rightarrow> string \<Rightarrow> bool" where
  "is_path E a [] b = (a = b)"
| "is_path E a (e # p) b = (e \<in> set E \<and> name (efrom e) = a \<and> is_path E (name (eto e)) p b)"

definition weight :: "Edge list \<Rightarrow> int" where
  "weight p = sum_list (map distance p)"

definition reachable :: "Edge list \<Rightarrow> string \<Rightarrow> string \<Rightarrow> bool" where
  "reachable E a b = (\<exists>p. is_path E a p b)"

definition has_path :: "Edge list \<Rightarrow> string \<Rightarrow> string \<Rightarrow> int \<Rightarrow> bool" where
  "has_path E a b d = (\<exists>p. is_path E a p b \<and> weight p = d)"


definition out_edges :: "Edge list \<Rightarrow> string \<Rightarrow> Edge list" where
  "out_edges E u = filter (\<lambda>e. name (efrom e) = u) E"

lemma is_path_snoc:
  "is_path E a (p @ [e]) b \<longleftrightarrow> is_path E a p (name (efrom e)) \<and> e \<in> set E \<and> name (eto e) = b"
  by (induction p arbitrary: a) auto

lemma weight_simps [simp]:
  "weight [] = 0" "weight (e # p) = distance e + weight p" "weight (p @ p') = weight p + weight p'"
  by (simp_all add: weight_def)

lemma has_path_refl: "has_path E a a 0"
  unfolding has_path_def by (rule exI [of _ "[]"]) simp

lemma has_path_step:
  assumes "has_path E a (name (efrom e)) d" "e \<in> set E"
  shows "has_path E a (name (eto e)) (d + distance e)"
proof -
  from assms(1) obtain p where "is_path E a p (name (efrom e))" "weight p = d"
    unfolding has_path_def by blast
  with assms(2) have "is_path E a (p @ [e]) (name (eto e)) \<and> weight (p @ [e]) = d + distance e"
    by (simp add: is_path_snoc)
  then show ?thesis unfolding has_path_def by blast
qed



lemma path_in_vertex_names:
  "is_path E a p b \<Longrightarrow> p \<noteq> [] \<Longrightarrow> b \<in> vertex_names E"
proof (induction p arbitrary: a)
  case Nil
  then show ?case by simp
next
  case (Cons e p)
  show ?case
  proof (cases "p = []")
    case True
    with Cons.prems show ?thesis by (auto simp: vertex_names_def)
  next
    case False
    with Cons show ?thesis by auto
  qed
qed

lemma Vertex_name [simp]: "Vertex (name v) = v"
  by (cases v) simp

lemma name_eq_iff: "name u = name v \<longleftrightarrow> u = v"
  by (cases u; cases v) simp

subsection \<open>The adjacency index and the initial distances\<close>

lemma add_edge_fst:
  "map_of (fst (add_edge acc e)) u =
     (if u = name (efrom e)
      then Some ((case map_of (fst acc) u of None \<Rightarrow> [] | Some es \<Rightarrow> es) @ [e])
      else map_of (fst acc) u)"
  by (auto simp: add_edge_def Let_def update_conv' split: option.splits)

lemma add_edge_snd:
  "set (snd (add_edge acc e)) = set (snd acc) \<union> {name (efrom e), name (eto e)}"
  by (auto simp: add_edge_def Let_def set_add_def)

lemma build_neighbours:
  "map_of (fst (foldl add_edge ([], []) E)) u =
     (if out_edges E u = [] then None else Some (out_edges E u))"
proof (induction E rule: rev_induct)
  case Nil
  then show ?case by (simp add: out_edges_def)
next
  case (snoc e E)
  then show ?case by (auto simp: add_edge_fst out_edges_def)
qed

lemma build_allVertices: "set (snd (foldl add_edge ([], []) E)) = vertex_names E"
proof (induction E rule: rev_induct)
  case Nil
  then show ?case by (simp add: vertex_names_def)
next
  case (snoc e E)
  then show ?case by (auto simp: add_edge_snd vertex_names_def)
qed

lemma init_distances_apply:
  "init_distances vs x = (if x \<in> set vs then Some Infinity else None)"
proof (induction vs rule: rev_induct)
  case Nil
  then show ?case by (simp add: init_distances_def)
next
  case (snoc v vs)
  then show ?case by (auto simp: init_distances_def)
qed

section \<open>What holds whatever the weights\<close>

text \<open>
  \<open>sound\<close>: every finite distance and every queue entry is the weight of some path from the
  source, a vertex with a predecessor has a finite distance, the registered names are the
  names of the edge list, and \<open>neighbours\<close> is the index built from the edges.
\<close>

definition sound :: "Run \<Rightarrow> bool" where
  "sound st \<longleftrightarrow>
     (\<forall>x d. bestDistances st x = Some (Num d) \<longrightarrow> has_path (edges st) (name (startV st)) x d)
   \<and> (\<forall>v k. (v, k) \<in> set (q st) \<longrightarrow>
          (\<exists>d. k = Num d \<and> has_path (edges st) (name (startV st)) (name v) d))
   \<and> (\<forall>w u. prevVertex st w = Some u \<longrightarrow> (\<exists>d. bestDistances st w = Some (Num d)))
   \<and> dom (bestDistances st) = vertex_names (edges st)
   \<and> neighbours st = fst (foldl add_edge ([], []) (edges st))"

lemma soundD:
  assumes "sound st"
  shows "bestDistances st x = Some (Num d) \<Longrightarrow> has_path (edges st) (name (startV st)) x d"
    and "(v, k) \<in> set (q st) \<Longrightarrow> \<exists>d. k = Num d \<and> has_path (edges st) (name (startV st)) (name v) d"
    and "prevVertex st w = Some u \<Longrightarrow> \<exists>d. bestDistances st w = Some (Num d)"
    and "dom (bestDistances st) = vertex_names (edges st)"
    and "neighbours st = fst (foldl add_edge ([], []) (edges st))"
  using assms unfolding sound_def by blast+

lemma lt_lookup_Num:
  "lt_lookup (Num a) m \<longleftrightarrow> m = Some Infinity \<or> (\<exists>b. m = Some (Num b) \<and> a < b)"
proof (cases m)
  case None
  then show ?thesis by simp
next
  case (Some y)
  then show ?thesis by (cases y) auto
qed

text \<open>What one relaxation does: nothing, or the update of the three maps.\<close>

definition improves :: "int \<Rightarrow> Run \<Rightarrow> Edge \<Rightarrow> bool" where
  "improves d st e \<longleftrightarrow> name (eto e) \<notin> set (visited st)
     \<and> lt_lookup (Num (d + distance e)) (bestDistances st (name (eto e)))"

lemma relax_skip: "\<not> improves d st e \<Longrightarrow> relax u (Num d) st e = st"
  by (auto simp: relax_def improves_def Let_def)

lemma relax_update:
  "improves d st e \<Longrightarrow> relax u (Num d) st e =
     st\<lparr>bestDistances := (bestDistances st)(name (eto e) \<mapsto> Num (d + distance e)),
        prevVertex := (prevVertex st)(name (eto e) \<mapsto> u),
        q := q st @ [(eto e, Num (d + distance e))]\<rparr>"
  by (auto simp: relax_def improves_def Let_def enq_def)

lemma soundI:
  assumes "\<And>x d. bestDistances st x = Some (Num d) \<Longrightarrow> has_path (edges st) (name (startV st)) x d"
    and "\<And>v k. (v, k) \<in> set (q st) \<Longrightarrow>
          \<exists>d. k = Num d \<and> has_path (edges st) (name (startV st)) (name v) d"
    and "\<And>w u. prevVertex st w = Some u \<Longrightarrow> \<exists>d. bestDistances st w = Some (Num d)"
    and "dom (bestDistances st) = vertex_names (edges st)"
    and "neighbours st = fst (foldl add_edge ([], []) (edges st))"
  shows "sound st"
  using assms unfolding sound_def by blast

lemma improves_dom: "improves d st e \<Longrightarrow> name (eto e) \<in> dom (bestDistances st)"
  by (cases "bestDistances st (name (eto e))") (auto simp: improves_def)

lemma sound_relax:
  assumes s: "sound st" and p: "has_path (edges st) (name (startV st)) (name u) d"
    and e: "e \<in> set (edges st)" "efrom e = u"
  shows "sound (relax u (Num d) st e)"
proof (cases "improves d st e")
  case False
  with s show ?thesis by (simp add: relax_skip)
next
  case True
  let ?w = "name (eto e)"
  have new: "has_path (edges st) (name (startV st)) ?w (d + distance e)"
    using has_path_step [of "edges st" "name (startV st)" e d] p e by simp
  have dom: "?w \<in> dom (bestDistances st)" using True by (rule improves_dom)
  show ?thesis
    unfolding relax_update [OF True]
  proof (rule soundI)
    show "dom (bestDistances (st\<lparr>bestDistances := (bestDistances st)(?w \<mapsto> Num (d + distance e)),
        prevVertex := (prevVertex st)(?w \<mapsto> u), q := q st @ [(eto e, Num (d + distance e))]\<rparr>))
        = vertex_names (edges (st\<lparr>bestDistances := (bestDistances st)(?w \<mapsto> Num (d + distance e)),
        prevVertex := (prevVertex st)(?w \<mapsto> u), q := q st @ [(eto e, Num (d + distance e))]\<rparr>))"
      using soundD(4) [OF s] dom by auto
  qed (use new soundD [OF s] in \<open>auto split: if_splits\<close>)
qed

lemma sound_foldl_relax:
  assumes "sound st" "has_path (edges st) (name (startV st)) (name u) d"
    and "set es \<subseteq> set (edges st)" "\<forall>e\<in>set es. efrom e = u"
  shows "sound (foldl (relax u (Num d)) st es)"
  using assms
proof (induction es arbitrary: st)
  case Nil
  then show ?case by simp
next
  case (Cons e es)
  have "sound (relax u (Num d) st e)"
    using Cons.prems by (intro sound_relax) auto
  then have "sound (foldl (relax u (Num d)) (relax u (Num d) st e) es)"
    using Cons.prems by (intro Cons.IH) simp_all
  then show ?case by simp
qed

lemma set_remove_nth: "set (take i xs @ drop (Suc i) xs) \<subseteq> set xs"
  by (auto dest: in_set_takeD in_set_dropD)


text \<open>The neighbours found for a popped vertex are its outgoing edges, in input order.\<close>

lemma sound_neighbours:
  assumes "sound st"
  shows "map_of (neighbours st) u =
           (if out_edges (edges st) u = [] then None else Some (out_edges (edges st) u))"
  using soundD(5) [OF assms] by (simp add: build_neighbours)

lemma iteration_cases:
  assumes "q st \<noteq> []"
  obtains i v k where "i < length (q st)" "q st ! i = (v, k)"
    "\<forall>y\<in>set (q st). number_le k (snd y)"
    "iteration c st =
       (case map_of (neighbours st) (name v) of
          None \<Rightarrow> st\<lparr>q := take i (q st) @ drop (Suc i) (q st)\<rparr>
        | Some es \<Rightarrow>
            (foldl (relax v k) (st\<lparr>q := take i (q st) @ drop (Suc i) (q st)\<rparr>) es)
              \<lparr>visited := set_add (name v) (visited st)\<rparr>)"
proof -
  from deq_Some [OF assms, of c] obtain i where i: "i < length (q st)"
    and d: "deq c (q st) = Some (q st ! i, take i (q st) @ drop (Suc i) (q st))"
    and m: "\<forall>y\<in>set (q st). number_le (snd (q st ! i)) (snd y)" by blast
  obtain v k where vk: "q st ! i = (v, k)" by (cases "q st ! i")
  have "iteration c st =
       (case map_of (neighbours st) (name v) of
          None \<Rightarrow> st\<lparr>q := take i (q st) @ drop (Suc i) (q st)\<rparr>
        | Some es \<Rightarrow>
            (foldl (relax v k) (st\<lparr>q := take i (q st) @ drop (Suc i) (q st)\<rparr>) es)
              \<lparr>visited := set_add (name v) (visited st)\<rparr>)"
    by (simp add: iteration_def d vk Let_def split: option.splits)
  with i vk m that show ?thesis by simp
qed

lemma iteration_fixed [simp]:
  "edges (iteration c st) = edges st" "startV (iteration c st) = startV st"
  "neighbours (iteration c st) = neighbours st"
  by (auto simp: iteration_def Let_def split: option.splits prod.splits)

lemma sound_pop: "sound st \<Longrightarrow> sound (st\<lparr>q := take i (q st) @ drop (Suc i) (q st)\<rparr>)"
  unfolding sound_def using set_remove_nth [of i "q st"] by (simp add: subset_iff)

lemma sound_visited: "sound st \<Longrightarrow> sound (st\<lparr>visited := vs\<rparr>)"
  unfolding sound_def by simp

lemma sound_iteration:
  assumes "sound st"
  shows "sound (iteration c st)"
proof (cases "q st = []")
  case True
  then show ?thesis using assms by (simp add: iteration_def deq_def)
next
  case False
  then obtain i v k where i: "i < length (q st)" and vk: "q st ! i = (v, k)"
    and it: "iteration c st =
       (case map_of (neighbours st) (name v) of
          None \<Rightarrow> st\<lparr>q := take i (q st) @ drop (Suc i) (q st)\<rparr>
        | Some es \<Rightarrow>
            (foldl (relax v k) (st\<lparr>q := take i (q st) @ drop (Suc i) (q st)\<rparr>) es)
              \<lparr>visited := set_add (name v) (visited st)\<rparr>)"
    by (rule iteration_cases [of st c]) blast
  let ?st1 = "st\<lparr>q := take i (q st) @ drop (Suc i) (q st)\<rparr>"
  have s1: "sound ?st1" using assms by (rule sound_pop)
  from i vk have "(v, k) \<in> set (q st)" by (metis nth_mem)
  then obtain d where d: "k = Num d" "has_path (edges st) (name (startV st)) (name v) d"
    using soundD(2) [OF assms] by blast
  show ?thesis
  proof (cases "out_edges (edges st) (name v) = []")
    case True
    then show ?thesis using s1 it by (simp add: sound_neighbours [OF assms])
  next
    case False
    have "sound (foldl (relax v (Num d)) ?st1 (out_edges (edges st) (name v)))"
    proof (rule sound_foldl_relax [OF s1])
      show "has_path (edges ?st1) (name (startV ?st1)) (name v) d" using d(2) by simp
      show "set (out_edges (edges st) (name v)) \<subseteq> set (edges ?st1)"
        by (auto simp: out_edges_def)
      show "\<forall>e\<in>set (out_edges (edges st) (name v)). efrom e = v"
        by (auto simp: out_edges_def name_eq_iff)
    qed
    then show ?thesis using False it d(1)
      by (simp add: sound_neighbours [OF assms] sound_visited)
  qed
qed

lemma sound_init:
  assumes "name sv \<in> vertex_names es"
  shows "sound (initial_run (Graph_init sv es))"
proof (rule soundI)
  show "dom (bestDistances (initial_run (Graph_init sv es)))
      = vertex_names (edges (initial_run (Graph_init sv es)))"
    using assms
    by (auto simp: initial_run_def Graph_init_def Let_def init_distances_apply build_allVertices
        split: if_splits)
qed (auto simp: initial_run_def Graph_init_def Let_def init_distances_apply enq_def has_path_refl
      split: if_splits)

lemma sound_passes: "sound st \<Longrightarrow> sound (passes n cs st)"
  by (induction n cs st rule: passes.induct) (simp_all add: sound_iteration)

lemma while_is_passes:
  "\<exists>n. isEmpty (q (passes n cs st)) \<and> dijkstra_while cs st = passes n cs st"
proof (induction cs st rule: dijkstra_while.induct)
  case (1 cs st)
  show ?case
  proof (cases "isEmpty (q st)")
    case True
    then have "isEmpty (q (passes 0 cs st)) \<and> dijkstra_while cs st = passes 0 cs st"
      by (simp add: dijkstra_while.simps)
    then show ?thesis by blast
  next
    case False
    from "1.IH" [OF False] obtain n where
      n: "isEmpty (q (passes n (tl cs) (iteration (choice cs) st)))"
         "dijkstra_while (tl cs) (iteration (choice cs) st)
            = passes n (tl cs) (iteration (choice cs) st)"
      by blast
    with False have "isEmpty (q (passes (Suc n) cs st))
        \<and> dijkstra_while cs st = passes (Suc n) cs st"
      by (simp add: dijkstra_while.simps [of cs st])
    then show ?thesis by blast
  qed
qed

lemma sound_while: "sound st \<Longrightarrow> sound (dijkstra_while cs st)"
  using while_is_passes [of cs st] sound_passes [of st] by auto

lemma relax_dom: "dom (bestDistances (relax u k st e)) = dom (bestDistances st)"
proof (cases "bestDistances st (name (eto e))")
  case None
  then show ?thesis by (simp add: relax_def Let_def)
next
  case (Some b)
  then show ?thesis by (auto simp: relax_def Let_def)
qed

lemma foldl_relax_dom: "dom (bestDistances (foldl (relax u k) st es)) = dom (bestDistances st)"
  by (induction es arbitrary: st) (simp_all add: relax_dom)

lemma relax_queue:
  "q (relax u (Num d) st e) =
     (if improves d st e then q st @ [(eto e, Num (d + distance e))] else q st)"
  by (simp add: relax_skip relax_update)

lemma deq_removes_one:
  assumes "deq c pq = Some (x, rest)"
  shows "x \<in> set pq \<and> length rest + 1 = length pq \<and> set rest \<subseteq> set pq
       \<and> (\<forall>y\<in>set pq. number_le (snd x) (snd y))"
proof -
  from assms have ne: "pq \<noteq> []" by (auto simp: deq_def split: if_splits)
  from deq_Some [OF ne, of c] assms obtain i where i: "i < length pq" "x = pq ! i"
    "rest = take i pq @ drop (Suc i) pq" "\<forall>y\<in>set pq. number_le (snd (pq ! i)) (snd y)"
    by auto
  then show ?thesis using set_remove_nth [of i pq] by auto
qed

text \<open>
  Claim C9: for every valid input the loop of the algorithm run by the constructor makes
  finitely many passes: after some number \<open>n\<close> of passes the queue is empty, and the state
  then is the result of the loop. Each pop removes one entry, and a relaxation pushes an
  entry only when the target is not visited and the new distance is strictly smaller than
  the recorded one.
\<close>

theorem loop_terminates:
  assumes "validateInput sv es = None"
  shows "(\<exists>n. isEmpty (q (passes n cs (initial_run (Graph_init sv es))))
            \<and> dijkstra_while cs (initial_run (Graph_init sv es))
                = passes n cs (initial_run (Graph_init sv es)))
       \<and> (\<forall>c pq x rest. deq c pq = Some (x, rest) \<longrightarrow> length rest + 1 = length pq)
       \<and> (\<forall>u d st e. q (relax u (Num d) st e) =
            (if name (eto e) \<notin> set (visited st)
                \<and> lt_lookup (Num (d + distance e)) (bestDistances st (name (eto e)))
             then q st @ [(eto e, Num (d + distance e))] else q st))"
proof (intro conjI allI impI)
  show "\<exists>n. isEmpty (q (passes n cs (initial_run (Graph_init sv es))))
            \<and> dijkstra_while cs (initial_run (Graph_init sv es))
                = passes n cs (initial_run (Graph_init sv es))"
    by (rule while_is_passes)
next
  fix c pq x rest
  assume "deq c pq = Some (x :: entry, rest)"
  then show "length rest + 1 = length pq" using deq_removes_one by blast
next
  fix u d st e
  show "q (relax u (Num d) st e) =
            (if name (eto e) \<notin> set (visited st)
                \<and> lt_lookup (Num (d + distance e)) (bestDistances st (name (eto e)))
             then q st @ [(eto e, Num (d + distance e))] else q st)"
    using relax_queue [of u d st e] by (simp add: improves_def)
qed

theorem loop_terminates_witness:
  "validateInput vA demo_edges = None
   \<and> (\<exists>n. isEmpty (q (passes n [] (initial_run (Graph_init vA demo_edges))))
            \<and> dijkstra_while [] (initial_run (Graph_init vA demo_edges))
                = passes n [] (initial_run (Graph_init vA demo_edges)))"
proof -
  have h: "validateInput vA demo_edges = None" by code_simp
  from loop_terminates [OF h, of "[]"] h show ?thesis by blast
qed

text \<open>
  Claim C10: in every state that the loop reaches from a validated input, when the popped
  vertex has an adjacency entry, the target of each of its edges has an entry in the
  best-distance map at the moment the edge is relaxed (after the edges before it), and the
  adjacency lookup of the popped vertex gives the same list again: neither lookup under a
  non-null assertion is undefined.
\<close>

theorem lookups_defined:
  assumes "validateInput sv es = None"
    and "st = passes n cs (initial_run (Graph_init sv es))"
    and "deq c (q st) = Some ((v, d), rest)"
    and "map_of (neighbours st) (name v) = Some ns"
    and "ns = ns1 @ e # ns2"
  shows "bestDistances (foldl (relax v d) (st\<lparr>q := rest\<rparr>) ns1) (name (eto e)) \<noteq> None
       \<and> map_of (neighbours (foldl (relax v d) (st\<lparr>q := rest\<rparr>) ns1)) (name v) = Some ns"
proof -
  from assms(1) have "name sv \<in> vertex_names es"
    by (auto simp: validateInput_cases split: if_splits)
  then have s: "sound st"
    unfolding assms(2) by (intro sound_passes sound_init)
  from assms(4) have "ns = out_edges (edges st) (name v)"
    by (auto simp: sound_neighbours [OF s] split: if_splits)
  with assms(5) have "e \<in> set (out_edges (edges st) (name v))" by simp
  then have "e \<in> set (edges st)" by (simp add: out_edges_def)
  then have "name (eto e) \<in> vertex_names (edges st)" by (auto simp: vertex_names_def)
  then have "name (eto e) \<in> dom (bestDistances st)" using soundD(4) [OF s] by simp
  then have "name (eto e) \<in> dom (bestDistances (foldl (relax v d) (st\<lparr>q := rest\<rparr>) ns1))"
    by (simp add: foldl_relax_dom)
  then show ?thesis using assms(4) by auto
qed

theorem lookups_defined_witness:
  "validateInput vA demo_edges = None
   \<and> deq 0 (q (passes 1 [] (initial_run (Graph_init vA demo_edges))))
       = Some ((vB, Num 1), [(vC, Num 3), (vE, Num 10)])
   \<and> map_of (neighbours (passes 1 [] (initial_run (Graph_init vA demo_edges)))) (name vB)
       = Some ([] @ Edge vB vC 1 # [])
   \<and> bestDistances (foldl (relax vB (Num 1))
         ((passes 1 [] (initial_run (Graph_init vA demo_edges)))\<lparr>q := [(vC, Num 3), (vE, Num 10)]\<rparr>) [])
         (name (eto (Edge vB vC 1))) \<noteq> None"
proof -
  have h1: "validateInput vA demo_edges = None" by code_simp
  have h3: "deq 0 (q (passes 1 [] (initial_run (Graph_init vA demo_edges))))
       = Some ((vB, Num 1), [(vC, Num 3), (vE, Num 10)])" by code_simp
  have h4: "map_of (neighbours (passes 1 [] (initial_run (Graph_init vA demo_edges)))) (name vB)
       = Some ([] @ Edge vB vC 1 # [])" by code_simp
  from lookups_defined [OF h1 refl h3 h4 refl] h1 h3 h4 show ?thesis by blast
qed

section \<open>The invariant of Dijkstra's algorithm\<close>

text \<open>
  \<open>relaxed st x d\<close>: every edge out of \<open>x\<close> leads to a vertex whose distance is at most
  \<open>d\<close> plus the weight of the edge. \<open>lower_bound\<close>: no path is lighter than \<open>d\<close>.
  \<open>pos x xs\<close> is the position of \<open>x\<close> in the list of visited names (its length when \<open>x\<close> is
  not in it). \<open>link_ok\<close>: a predecessor entry \<open>w \<mapsto> u\<close> comes from an edge from \<open>u\<close> to \<open>w\<close>
  that accounts for the distance of \<open>w\<close>, and \<open>u\<close> was visited before \<open>w\<close>.

  \<open>dijk ex vis st\<close> collects: the source has distance \<open>0\<close> and no predecessor; a queue entry
  is not below the distance of its vertex; a vertex with a finite distance either has the
  queue entry for that distance, or its edges are relaxed, or it is exempt (the vertex being
  processed); a visited vertex has its final distance and relaxed edges; every predecessor
  entry is a good link for the order \<open>vis\<close>; every vertex with a finite distance other than
  the source has a predecessor.
\<close>

definition relaxed :: "Run \<Rightarrow> string \<Rightarrow> int \<Rightarrow> bool" where
  "relaxed st x d \<longleftrightarrow>
     (\<forall>e\<in>set (edges st). name (efrom e) = x \<longrightarrow>
        (\<exists>b. bestDistances st (name (eto e)) = Some (Num b) \<and> b \<le> d + distance e))"


fun pos :: "string \<Rightarrow> string list \<Rightarrow> nat" where
  "pos x [] = 0"
| "pos x (y # ys) = (if x = y then 0 else Suc (pos x ys))"

definition link_ok :: "string list \<Rightarrow> Run \<Rightarrow> string \<Rightarrow> Vertex \<Rightarrow> bool" where
  "link_ok vis st w u \<longleftrightarrow>
     name u \<in> set vis \<and> pos (name u) vis < pos w vis
   \<and> (\<exists>e\<in>set (edges st). efrom e = u \<and> name (eto e) = w
        \<and> (\<exists>du. bestDistances st (name u) = Some (Num du)
              \<and> bestDistances st w = Some (Num (du + distance e))))"


















lemma relaxed_q [simp]: "relaxed (st\<lparr>q := qq\<rparr>) x d = relaxed st x d"
  by (simp add: relaxed_def)

lemma relaxed_visited [simp]: "relaxed (st\<lparr>visited := vs\<rparr>) x d = relaxed st x d"
  by (simp add: relaxed_def)

lemma link_ok_q [simp]: "link_ok vis (st\<lparr>q := qq\<rparr>) w u = link_ok vis st w u"
  by (simp add: link_ok_def)

lemma link_ok_visited [simp]: "link_ok vis (st\<lparr>visited := vs\<rparr>) w u = link_ok vis st w u"
  by (simp add: link_ok_def)













section \<open>The constructed graph\<close>

lemma passes_fixed [simp]:
  "edges (passes n cs st) = edges st" "startV (passes n cs st) = startV st"
  by (induction n cs st rule: passes.induct) simp_all

lemma while_fixed [simp]:
  "edges (dijkstra_while cs st) = edges st" "startV (dijkstra_while cs st) = startV st"
  using while_is_passes [of cs st] by auto

lemma while_queue_empty [simp]: "q (dijkstra_while cs st) = []"
  using while_is_passes [of cs st] by (auto simp: isEmpty_def)

definition final_run :: "nat list \<Rightarrow> Vertex \<Rightarrow> Edge list \<Rightarrow> Run" where
  "final_run cs sv es = dijkstra_while cs (initial_run (Graph_init sv es))"

lemma final_run_fixed [simp]:
  "edges (final_run cs sv es) = es" "startV (final_run cs sv es) = sv"
  "q (final_run cs sv es) = []"
  by (simp_all add: final_run_def initial_run_def Graph_init_def Let_def)

lemma Graph_new_Inr:
  assumes "Graph_new cs sv es = Inr g"
  shows "name sv \<in> vertex_names es" "startV g = sv" "edges g = es"
    "bestDistances g = bestDistances (final_run cs sv es)"
    "prevVertex g = prevVertex (final_run cs sv es)"
proof -
  from assms show a: "name sv \<in> vertex_names es"
    by (auto simp: Graph_new_cases split: if_splits)
  with assms have "g = Graph.truncate (final_run cs sv es)"
    by (auto simp: Graph_new_cases dijkstraShortPathAlgo_def final_run_def split: if_splits)
  then show "startV g = sv" "edges g = es"
    "bestDistances g = bestDistances (final_run cs sv es)"
    "prevVertex g = prevVertex (final_run cs sv es)"
    by (simp_all add: Graph.truncate_def)
qed

lemma final_sound: "name sv \<in> vertex_names es \<Longrightarrow> sound (final_run cs sv es)"
  unfolding final_run_def by (intro sound_while sound_init)




lemma demo_valid_E:
  "Graph_new [] vE demo_edges = Inr (dijkstraShortPathAlgo [] (Graph_init vE demo_edges))"
  by (simp add: Graph_new_cases demo_edges_def vertex_names_def)



lemma demo_unreach_A: "\<not> reachable demo_edges (name vE) (name vA)"
proof
  assume "reachable demo_edges (name vE) (name vA)"
  then obtain p where p: "is_path demo_edges (name vE) p (name vA)"
    by (auto simp: reachable_def)
  then show False
    by (cases p) (auto simp: demo_edges_def vA_def vB_def vC_def vD_def vE_def)
qed

lemma demo_names:
  "name vA \<in> vertex_names demo_edges" "name (Vertex ''Z'') \<notin> vertex_names demo_edges"
  "name vC \<noteq> name vA"
  by (simp_all add: vertex_names_def demo_edges_def vA_def vB_def vC_def vD_def vE_def)



text \<open>
  Claim C4: in a constructed graph, a vertex whose name is in no edge has no distance
  (\<open>undefined\<close>, which is not \<open>Infinity\<close>); a vertex that is in some edge and not reachable
  from the source has the distance \<open>Infinity\<close> and no path (\<open>undefined\<close>). This holds
  whatever the weights.
\<close>

theorem unknown_and_unreachable:
  assumes "Graph_new cs sv es = Inr g"
  shows "(name v \<notin> vertex_names es \<longrightarrow>
            shortestPathTo g v = None \<and> shortestPathTo g v \<noteq> Some Infinity)
       \<and> (name v \<in> vertex_names es \<and> \<not> reachable es (name sv) (name v) \<longrightarrow>
            shortestPathTo g v = Some Infinity \<and> pathTo g v = Some None
            \<and> printPathTo g v = Some None)"
proof (intro conjI impI)
  note g = Graph_new_Inr [OF assms(1)]
  have s: "sound (final_run cs sv es)" using g(1) by (rule final_sound)
  {
    assume "name v \<notin> vertex_names es"
    then show "shortestPathTo g v = None" "shortestPathTo g v \<noteq> Some Infinity"
      using soundD(4) [OF s] by (auto simp: shortestPathTo_def g(4))
  }
  assume a: "name v \<in> vertex_names es \<and> \<not> reachable es (name sv) (name v)"
  then obtain y where y: "bestDistances (final_run cs sv es) (name v) = Some y"
    using soundD(4) [OF s] by auto
  have fin: "\<And>d. bestDistances (final_run cs sv es) (name v) \<noteq> Some (Num d)"
    using soundD(1) [OF s, of "name v"] a by (auto simp: has_path_def reachable_def)
  with y show "shortestPathTo g v = Some Infinity"
    by (cases y) (simp_all add: shortestPathTo_def g(4))
  have ns: "name v \<noteq> name sv"
  proof
    assume "name v = name sv"
    then have "is_path es (name sv) [] (name v)" by simp
    with a show False unfolding reachable_def by blast
  qed
  have np: "prevVertex (final_run cs sv es) (name v) = None"
  proof (cases "prevVertex (final_run cs sv es) (name v)")
    case (Some u)
    from soundD(3) [OF s Some] fin show ?thesis by auto
  qed simp
  from ns np show "pathTo g v = Some None" by (simp add: pathTo_def g)
  from ns np show "printPathTo g v = Some None" by (simp add: printPathTo_def g)
qed

theorem unknown_and_unreachable_witness:
  "name (Vertex ''Z'') \<notin> vertex_names demo_edges \<and> name vA \<in> vertex_names demo_edges
   \<and> \<not> reachable demo_edges (name vE) (name vA)
   \<and> (\<exists>g. Graph_new [] vE demo_edges = Inr g
        \<and> shortestPathTo g (Vertex ''Z'') = None
        \<and> shortestPathTo g vA = Some Infinity \<and> pathTo g vA = Some None
        \<and> printPathTo g vA = Some None)"
  using unknown_and_unreachable [OF demo_valid_E, of "Vertex ''Z''"]
    unknown_and_unreachable [OF demo_valid_E, of vA]
    demo_valid_E demo_unreach_A demo_names(1,2)
  by simp

section \<open>Following the predecessors\<close>



definition arrows :: "Vertex list \<Rightarrow> string" where
  "arrows vs = concat (map (\<lambda>p. ''Vertex('' @ name p @ '') -> '') vs)"








lemma arrows_snoc: "arrows (vs @ [u]) @ str = arrows vs @ (''Vertex('' @ name u @ '') -> '' @ str)"
  by (simp add: arrows_def)






end
